theory Spec2Isabelle
  imports Complex_Main "HOL-Library.Word" "HOL-Library.Log_Nat"
begin

chapter \<open>The program\<close>

section \<open>Errors\<close>

text \<open>
  The program has one exception class, \<open>MorseException\<close>, carrying a message. The three
  error kinds of the specification are the three messages that the text codec and the
  container reader construct.
\<close>

datatype error =
    MorseException string
  | OutOfRange \<comment> \<open>\<open>std::out_of_range\<close>, thrown by \<open>substr\<close> and \<open>map::at\<close>\<close>

definition UnsupportedCharacter :: "char \<Rightarrow> error" where
  "UnsupportedCharacter c =
     MorseException (''Character '' @ [CHR 0x27] @ [c] @ [CHR 0x27] @ '' cannot be encoded in Morse.'')"

definition UnsupportedSampleWidth :: error where
  "UnsupportedSampleWidth = MorseException ''Unsupported sample type in WAV file.''"

definition IOError :: "string \<Rightarrow> error" where
  "IOError filename = MorseException (''Cannot open '' @ filename)"

section \<open>The symbol table (\<open>MorseConverter::initMaps\<close>)\<close>

definition mappings :: "(char \<times> string) list" where
  "mappings =
    [(CHR ''A'', ''.-''), (CHR ''B'', ''-...''), (CHR ''C'', ''-.-.''), (CHR ''D'', ''-..''), (CHR ''E'', ''.''),
     (CHR ''F'', ''..-.''), (CHR ''G'', ''--.''), (CHR ''H'', ''....''), (CHR ''I'', ''..''), (CHR ''J'', ''.---''),
     (CHR ''K'', ''-.-''), (CHR ''L'', ''.-..''), (CHR ''M'', ''--''), (CHR ''N'', ''-.''), (CHR ''O'', ''---''),
     (CHR ''P'', ''.--.''), (CHR ''Q'', ''--.-''), (CHR ''R'', ''.-.''), (CHR ''S'', ''...''), (CHR ''T'', ''-''),
     (CHR ''U'', ''..-''), (CHR ''V'', ''...-''), (CHR ''W'', ''.--''), (CHR ''X'', ''-..-''), (CHR ''Y'', ''-.--''),
     (CHR ''Z'', ''--..''), (CHR ''0'', ''-----''), (CHR ''1'', ''.----''), (CHR ''2'', ''..---''), (CHR ''3'', ''...--''),
     (CHR ''4'', ''....-''), (CHR ''5'', ''.....''), (CHR ''6'', ''-....''), (CHR ''7'', ''--...''), (CHR ''8'', ''---..''),
     (CHR ''9'', ''----.''), (CHR ''.'', ''.-.-.-''), (CHR '','', ''--..--''), (CHR ''?'', ''..--..''), (CHR '' '', ''   '')]"

text \<open>
  \<open>initMaps\<close> assigns \<open>charToMorse[c] = s\<close> and \<open>morseToChar[s] = c\<close> for every pair in
  order; a later pair would overwrite an earlier one with the same key.
\<close>

definition charToMorse :: "char \<rightharpoonup> string" where
  "charToMorse = fold (\<lambda>(c, s) m. m(c \<mapsto> s)) mappings Map.empty"

definition morseToChar :: "string \<rightharpoonup> char" where
  "morseToChar = fold (\<lambda>(c, s) m. m(s \<mapsto> c)) mappings Map.empty"

text \<open>The character alphabet: the keys of \<open>charToMorse\<close>.\<close>

definition alphabet :: "char set" where
  "alphabet = dom charToMorse"

section \<open>Text to Morse (\<open>MorseConverter::encode\<close>)\<close>

text \<open>
  \<open>std::toupper\<close> in the default "C" locale: the 26 lowercase ASCII letters map to their
  uppercase forms, every other character is returned unchanged.
\<close>

definition toupper :: "char \<Rightarrow> char" where
  "toupper c = (if 97 \<le> (of_char c :: nat) \<and> (of_char c :: nat) \<le> 122
                then char_of ((of_char c :: nat) - 32) else c)"

text \<open>
  One iteration of the loop body over the state \<open>(morse, prev_was_space)\<close>. The throw
  leaves the function, so the state built so far is dropped.
\<close>

fun encode_step :: "char \<Rightarrow> string \<times> bool \<Rightarrow> error + string \<times> bool" where
  "encode_step c0 (morse, prev_was_space) =
     (let c = toupper c0 in
      if c = CHR '' '' then Inr (morse @ ''   '', True)
      else
        (let morse1 = (if morse \<noteq> [] \<and> \<not> prev_was_space then morse @ '' '' else morse) in
         case charToMorse c of
           Some p \<Rightarrow> Inr (morse1 @ p, False)
         | None \<Rightarrow> Inl (UnsupportedCharacter c)))"

fun encode_loop :: "string \<Rightarrow> string \<times> bool \<Rightarrow> error + string" where
  "encode_loop [] (morse, prev_was_space) = Inr morse"
| "encode_loop (c # cs) st =
     (case encode_step c st of
        Inl e \<Rightarrow> Inl e
      | Inr st' \<Rightarrow> encode_loop cs st')"

definition encode :: "string \<Rightarrow> error + string" where
  "encode text = encode_loop text ([], False)"

section \<open>Morse to text (\<open>MorseConverter::decode\<close>)\<close>

text \<open>
  \<open>std::string::find(pat, pos)\<close>: the lowest index \<open>i \<ge> pos\<close> with
  \<open>i + pat.size() \<le> size()\<close> at which \<open>pat\<close> occurs; \<open>None\<close> is \<open>npos\<close>.
\<close>

definition find_str :: "string \<Rightarrow> string \<Rightarrow> nat \<Rightarrow> nat option" where
  "find_str s pat pos =
     List.find (\<lambda>i. take (length pat) (drop i s) = pat) [pos ..< Suc (length s) - length pat]"

text \<open>\<open>substr(pos, n)\<close> and \<open>substr(pos)\<close> throw when \<open>pos > size()\<close>.\<close>

definition substr :: "string \<Rightarrow> nat \<Rightarrow> nat \<Rightarrow> error + string" where
  "substr s pos n = (if length s < pos then Inl OutOfRange else Inr (take n (drop pos s)))"

definition substr_end :: "string \<Rightarrow> nat \<Rightarrow> error + string" where
  "substr_end s pos = (if length s < pos then Inl OutOfRange else Inr (drop pos s))"

text \<open>\<open>map::at\<close> throws on a missing key.\<close>

definition map_at :: "('k \<rightharpoonup> 'v) \<Rightarrow> 'k \<Rightarrow> error + 'v" where
  "map_at m k = (case m k of None \<Rightarrow> Inl OutOfRange | Some v \<Rightarrow> Inr v)"

text \<open>
  The first loop: \<open>while ((pos = morse.find("   ", prev)) != npos)\<close>, over the state
  \<open>(prev, words)\<close>.
\<close>

function split_loop :: "string \<Rightarrow> nat \<Rightarrow> string list \<Rightarrow> error + nat \<times> string list" where
  "split_loop morse prev words =
     (case find_str morse ''   '' prev of
        None \<Rightarrow> Inr (prev, words)
      | Some pos \<Rightarrow>
          (case substr morse prev (pos - prev) of
             Inl e \<Rightarrow> Inl e
           | Inr w \<Rightarrow> split_loop morse (pos + 3) (words @ [w])))"
  by pat_completeness auto
termination
proof (relation "measure (\<lambda>(morse, prev, words). Suc (length morse) - prev)")
  fix morse :: string and prev :: nat and words :: "string list" and pos :: nat and w :: string
  assume "find_str morse ''   '' prev = Some pos"
  then obtain k where "k < length [prev ..< Suc (length morse) - length ''   '']"
      and "[prev ..< Suc (length morse) - length ''   ''] ! k = pos"
    unfolding find_str_def find_Some_iff by blast
  then have "pos = prev + k" and "prev + k < Suc (length morse) - 3" by auto
  then show "((morse, pos + 3, words @ [w]), (morse, prev, words))
          \<in> measure (\<lambda>(morse, prev, words). Suc (length morse) - prev)"
    by simp
qed simp

text \<open>
  \<open>iss >> token\<close>: skip leading whitespace (the six characters of \<open>isspace\<close> in the
  "C" locale), then read up to the next whitespace or the end; the extraction fails, and
  the inner loop ends, when nothing is left after the skip.
\<close>

definition isspace :: "char \<Rightarrow> bool" where
  "isspace c = ((of_char c :: nat) = 32 \<or> (9 \<le> (of_char c :: nat) \<and> (of_char c :: nat) \<le> 13))"

function tokens :: "string \<Rightarrow> string list" where
  "tokens s =
     (let s1 = dropWhile isspace s in
      if s1 = [] then []
      else takeWhile (\<lambda>c. \<not> isspace c) s1 # tokens (dropWhile (\<lambda>c. \<not> isspace c) s1))"
  by pat_completeness auto
termination
proof (relation "measure length")
  fix s s1 :: string
  assume s1: "s1 = dropWhile isspace s" and ne: "s1 \<noteq> []"
  from ne obtain c cs where c: "s1 = c # cs" by (cases s1) auto
  with s1 have "\<not> isspace c" by (metis hd_dropWhile list.sel(1) ne)
  then have "length (dropWhile (\<lambda>c. \<not> isspace c) s1) \<le> length cs"
    by (simp add: c length_dropWhile_le)
  moreover have "length s1 \<le> length s" by (simp add: s1 length_dropWhile_le)
  ultimately show "(dropWhile (\<lambda>c. \<not> isspace c) s1, s) \<in> measure length"
    by (simp add: c)
qed simp

text \<open>The inner loop body: a token with an entry appends its character, any other is skipped.\<close>

fun decode_tokens :: "string list \<Rightarrow> string \<Rightarrow> error + string" where
  "decode_tokens [] text = Inr text"
| "decode_tokens (token # ts) text =
     (if morseToChar token \<noteq> None then
        (case map_at morseToChar token of
           Inl e \<Rightarrow> Inl e
         | Inr c \<Rightarrow> decode_tokens ts (text @ [c]))
      else decode_tokens ts text)"

text \<open>The second loop: \<open>for (size_t i = 0; i < words.size(); ++i)\<close>.\<close>

function decode_words :: "string list \<Rightarrow> nat \<Rightarrow> string \<Rightarrow> error + string" where
  "decode_words words i text =
     (if i < length words then
        (case decode_tokens (tokens (words ! i)) text of
           Inl e \<Rightarrow> Inl e
         | Inr text1 \<Rightarrow>
             decode_words words (Suc i) (if i \<noteq> length words - 1 then text1 @ '' '' else text1))
      else Inr text)"
  by pat_completeness auto
termination
  by (relation "measure (\<lambda>(words, i, text). length words - i)") auto

definition decode :: "string \<Rightarrow> error + string" where
  "decode morse =
     (case split_loop morse 0 [] of
        Inl e \<Rightarrow> Inl e
      | Inr (prev, words) \<Rightarrow>
          (case substr_end morse prev of
             Inl e \<Rightarrow> Inl e
           | Inr w \<Rightarrow> decode_words (words @ [w]) 0 []))"

section \<open>Double-precision arithmetic\<close>

text \<open>
  The timing constants and durations of \<open>WavProcessor\<close> are \<open>double\<close>s. A finite double is
  modelled by the rational number it denotes; every literal and every operation rounds its
  exact result to the nearest number with a 53-bit significand, ties to even (IEEE 754
  binary64, round-to-nearest; the values of this program stay far inside the normal range).
\<close>

definition pow2 :: "int \<Rightarrow> rat" where
  "pow2 k = (if 0 \<le> k then 2 ^ nat k else 1 / 2 ^ nat (- k))"

definition round_half_even :: "rat \<Rightarrow> int" where
  "round_half_even q =
     (let f = \<lfloor>q\<rfloor>; r = q - of_int f in
      if r < 1 / 2 then f else if 1 / 2 < r then f + 1 else if even f then f else f + 1)"

text \<open>The exponent \<open>e\<close> with \<open>2\<^sup>e \<le> x < 2\<^sup>e\<^sup>+\<^sup>1\<close>, for \<open>x > 0\<close>.\<close>

definition binade :: "rat \<Rightarrow> int" where
  "binade x =
     (let (a, b) = quotient_of x; k = bitlen a - bitlen b in
      if pow2 k \<le> x then k else k - 1)"

definition fl :: "rat \<Rightarrow> rat" where
  "fl x = (if x = 0 then 0
           else (let u = pow2 (binade \<bar>x\<bar> - 52) in of_int (round_half_even (x / u)) * u))"

definition fmul :: "rat \<Rightarrow> rat \<Rightarrow> rat" where
  "fmul a b = fl (a * b)"

definition fadd :: "rat \<Rightarrow> rat \<Rightarrow> rat" where
  "fadd a b = fl (a + b)"

text \<open>
  Division can leave the finite numbers: a positive number divided by zero is \<open>+\<infinity>\<close>,
  zero divided by zero is not a number. Every comparison with a NaN is false.
\<close>

datatype fp = Finite rat | PlusInfinity | NaN

definition fdiv :: "rat \<Rightarrow> rat \<Rightarrow> fp" where
  "fdiv a b = (if b = 0 then (if a = 0 then NaN else PlusInfinity) else Finite (fl (a / b)))"

fun fp_ge :: "fp \<Rightarrow> rat \<Rightarrow> bool" where
  "fp_ge (Finite x) t = (t \<le> x)"
| "fp_ge PlusInfinity t = True"
| "fp_ge NaN t = False"

fun fp_less :: "fp \<Rightarrow> rat \<Rightarrow> bool" where
  "fp_less (Finite x) t = (x < t)"
| "fp_less PlusInfinity t = False"
| "fp_less NaN t = False"

text \<open>\<open>static_cast<int>\<close> of a floating-point value discards the fractional part.\<close>

definition trunc :: "'a::floor_ceiling \<Rightarrow> int" where
  "trunc x = (if 0 \<le> x then \<lfloor>x\<rfloor> else \<lceil>x\<rceil>)"

section \<open>Morse to waveform (\<open>WavProcessor::generateSamples\<close>)\<close>

text \<open>
  The program instantiates the template only as \<open>WavProcessor<>\<close>, whose default sample
  type is \<open>int8_t\<close>.
\<close>

type_synonym sample = "8 word"

definition MAX_AMP :: int where
  "MAX_AMP = 127"

definition DOT_DURATION :: rat where
  "DOT_DURATION = fl (1 / 10)"

definition DASH_DURATION :: rat where
  "DASH_DURATION = fl (3 / 10)"

definition SYMBOL_SPACE :: rat where
  "SYMBOL_SPACE = fl (1 / 10)"

definition WORD_SPACE :: rat where
  "WORD_SPACE = fl (7 / 10)"

text \<open>\<open>const int n = static_cast<int>(duration * sr)\<close>, in both \<open>addSine\<close> and \<open>addSilence\<close>.\<close>

definition sample_count :: "rat \<Rightarrow> int \<Rightarrow> int" where
  "sample_count duration sr = trunc (fmul duration (of_int sr))"

definition addSilence :: "sample list \<Rightarrow> rat \<Rightarrow> int \<Rightarrow> sample list" where
  "addSilence samples duration sr = samples @ replicate (nat (sample_count duration sr)) 0"

text \<open>
  The value of \<open>std::sin\<close> is not fixed by the language. The model takes the sine and the
  two products around it over the real numbers; the cast to the sample type discards the
  fractional part.
\<close>

definition sine_sample :: "real \<Rightarrow> int \<Rightarrow> nat \<Rightarrow> sample" where
  "sine_sample freq sr i =
     word_of_int (trunc (real_of_int MAX_AMP * sin (2 * pi * freq / real_of_int sr * real i)))"

definition addSine :: "sample list \<Rightarrow> rat \<Rightarrow> real \<Rightarrow> int \<Rightarrow> sample list" where
  "addSine samples duration freq sr =
     samples @ map (sine_sample freq sr) [0 ..< nat (sample_count duration sr)]"

text \<open>
  The scanning loop, over the part of \<open>morse\<close> from index \<open>i\<close> on and the samples
  written so far. The inner loop counts and skips the whole run of spaces at \<open>i\<close>.
\<close>

function generate_loop :: "string \<Rightarrow> sample list \<Rightarrow> sample list" where
  "generate_loop [] samples = samples"
| "generate_loop (c # cs) samples =
     (if c = CHR ''.'' \<or> c = CHR ''-'' then
        generate_loop cs
          (addSilence
             (if c = CHR ''.'' then addSine samples DOT_DURATION 800 44100
              else addSine samples DASH_DURATION 800 44100)
             SYMBOL_SPACE 44100)
      else if c = CHR '' '' then
        (let spaceCount = length (takeWhile (\<lambda>d. d = CHR '' '') (c # cs)) in
         generate_loop (dropWhile (\<lambda>d. d = CHR '' '') (c # cs))
           (if spaceCount = 1 then addSilence samples (fmul SYMBOL_SPACE 3) 44100
            else if 3 \<le> spaceCount then addSilence samples WORD_SPACE 44100
            else samples))
      else generate_loop cs samples)"
  by pat_completeness auto
termination
  by (relation "measure (\<lambda>(morse, samples). length morse)")
     (auto simp: length_dropWhile_le less_Suc_eq_le)

definition generateSamples :: "string \<Rightarrow> sample list" where
  "generateSamples morse = generate_loop morse []"

section \<open>Waveform to Morse (\<open>WavProcessor::decodeSamples\<close>)\<close>

record detector =
  morse :: string
  in_tone :: bool
  tone_start :: int
  silence_start :: int
  debounce_counter :: int

definition initial :: detector where
  "initial = \<lparr>morse = [], in_tone = False, tone_start = 0, silence_start = - 1,
              debounce_counter = 0\<rparr>"

definition threshold :: int where
  "threshold = MAX_AMP div 100"

definition active :: "sample \<Rightarrow> bool" where
  "active x = (threshold < \<bar>sint x\<bar>)"

text \<open>\<open>static_cast<int>(sr * 0.001)\<close>, with \<open>sr\<close> a \<open>uint32_t\<close>.\<close>

definition debounce_threshold :: "nat \<Rightarrow> int" where
  "debounce_threshold sr = trunc (fmul (of_nat sr) (fl (1 / 1000)))"

text \<open>
  The loop index \<open>i\<close> is a 64-bit \<open>size_t\<close>, \<open>tone_start\<close> and \<open>silence_start\<close> are
  32-bit \<open>int\<close>s. Storing \<open>i\<close> in them keeps the low 32 bits; \<open>i - start\<close> converts the
  \<open>int\<close> to \<open>size_t\<close> and subtracts modulo \<open>2\<^sup>6\<^sup>4\<close>. Both are the identity below
  \<open>2\<^sup>3\<^sup>1\<close> samples.
\<close>

definition int_of_size :: "nat \<Rightarrow> int" where
  "int_of_size i = sint (word_of_nat i :: 32 word)"

definition size_minus :: "nat \<Rightarrow> int \<Rightarrow> nat" where
  "size_minus i start = nat ((int i - start) mod 2 ^ 64)"

text \<open>\<open>(i - start) / static_cast<double>(sr)\<close>: the difference is converted to \<open>double\<close> first.\<close>

definition duration :: "nat \<Rightarrow> int \<Rightarrow> nat \<Rightarrow> fp" where
  "duration i start sr = fdiv (fl (of_nat (size_minus i start))) (of_nat sr)"

text \<open>The gap appended when a tone is confirmed after a pending silence.\<close>

definition gap_marker :: "fp \<Rightarrow> string" where
  "gap_marker silence_duration =
     (if fp_ge silence_duration (fl (79 / 100)) then ''   ''
      else if fp_ge silence_duration (fl (39 / 100)) then '' ''
      else [])"

text \<open>The symbol appended when the end of a tone is confirmed.\<close>

definition tone_symbol :: "fp \<Rightarrow> char" where
  "tone_symbol tone_duration =
     (if fp_less tone_duration (fl (fadd DOT_DURATION DASH_DURATION / 2)) then CHR ''.''
      else CHR ''-'')"

text \<open>The body of the loop over the samples, at index \<open>i\<close>.\<close>

definition detect_step :: "nat \<Rightarrow> nat \<Rightarrow> sample \<Rightarrow> detector \<Rightarrow> detector" where
  "detect_step sr i x st =
     (if active x then
        (if \<not> in_tone st then
           (if debounce_threshold sr \<le> debounce_counter st + 1 then
              (let st1 = st\<lparr>in_tone := True, debounce_counter := 0\<rparr>;
                   st2 = (if silence_start st1 \<noteq> - 1
                          then st1\<lparr>morse := morse st1 @ gap_marker (duration i (silence_start st1) sr),
                                   silence_start := - 1\<rparr>
                          else st1)
               in st2\<lparr>tone_start := int_of_size i\<rparr>)
            else st\<lparr>debounce_counter := debounce_counter st + 1\<rparr>)
         else st\<lparr>debounce_counter := 0\<rparr>)
      else
        (if in_tone st then
           (if debounce_threshold sr \<le> debounce_counter st + 1 then
              st\<lparr>in_tone := False, debounce_counter := 0,
                 morse := morse st @ [tone_symbol (duration i (tone_start st) sr)],
                 silence_start := int_of_size i\<rparr>
            else st\<lparr>debounce_counter := debounce_counter st + 1\<rparr>)
         else st\<lparr>debounce_counter := 0\<rparr>))"

fun detect_loop :: "nat \<Rightarrow> nat \<Rightarrow> sample list \<Rightarrow> detector \<Rightarrow> detector" where
  "detect_loop sr i [] st = st"
| "detect_loop sr i (x # xs) st = detect_loop sr (Suc i) xs (detect_step sr i x st)"

definition decodeSamples :: "sample list \<Rightarrow> nat \<Rightarrow> string" where
  "decodeSamples samples sr = morse (detect_loop sr 0 samples initial)"

section \<open>Notions used to state the properties\<close>

text \<open>The parts \<open>xs\<close> written one after the other with \<open>sep\<close> between neighbours.\<close>

fun join :: "'a list \<Rightarrow> 'a list list \<Rightarrow> 'a list" where
  "join sep [] = []"
| "join sep [x] = x"
| "join sep (x # y # ys) = x @ sep @ join sep (y # ys)"

text \<open>
  The word segments of a Morse string: cut at the first three-space marker, then again in
  what follows it.
\<close>

function word_segments :: "string \<Rightarrow> string list" where
  "word_segments s =
     (case find_str s ''   '' 0 of
        None \<Rightarrow> [s]
      | Some p \<Rightarrow> take p s # word_segments (drop (p + 3) s))"
  by pat_completeness auto
termination
proof (relation "measure length")
  fix s :: string and p :: nat
  assume "find_str s ''   '' 0 = Some p"
  then obtain k where "k < length [0 ..< Suc (length s) - length ''   '']"
      and "[0 ..< Suc (length s) - length ''   ''] ! k = p"
    unfolding find_str_def find_Some_iff by blast
  then have "p + 3 \<le> length s" by auto
  then show "(drop (p + 3) s, s) \<in> measure length" by simp
qed simp

text \<open>The text of one letter token, and of one word segment.\<close>

definition token_text :: "string \<Rightarrow> string" where
  "token_text t = (case morseToChar t of None \<Rightarrow> [] | Some c \<Rightarrow> [c])"

definition decode_word :: "string \<Rightarrow> string" where
  "decode_word w = concat (map token_text (tokens w))"

text \<open>A letter token as the tokenizer sees it: not empty and free of whitespace.\<close>

definition tokenlike :: "string \<Rightarrow> bool" where
  "tokenlike p = (p \<noteq> [] \<and> (\<forall>c\<in>set p. \<not> isspace c))"

text \<open>
  The Morse text for a run of characters that are all in the alphabet; \<open>after\<close> says that
  the text written so far ends with a letter pattern, so that the next pattern is preceded
  by the one-space gap.
\<close>

fun morse_of :: "bool \<Rightarrow> string \<Rightarrow> string" where
  "morse_of after [] = []"
| "morse_of after (c # cs) =
     (if toupper c = CHR '' '' then ''   '' @ morse_of False cs
      else (if after then '' '' else []) @ the (charToMorse (toupper c)) @ morse_of True cs)"

text \<open>
  The successive values of \<open>spaceCount\<close> in \<open>generateSamples\<close>: the scan of
  \<open>generate_loop\<close>, keeping the counts instead of the samples.
\<close>

function space_counts :: "string \<Rightarrow> nat list" where
  "space_counts [] = []"
| "space_counts (c # cs) =
     (if c = CHR ''.'' \<or> c = CHR ''-'' then space_counts cs
      else if c = CHR '' '' then
        length (takeWhile (\<lambda>d. d = CHR '' '') (c # cs))
          # space_counts (dropWhile (\<lambda>d. d = CHR '' '') (c # cs))
      else space_counts cs)"
  by pat_completeness auto
termination
  by (relation "measure length") (auto simp: length_dropWhile_le less_Suc_eq_le)

text \<open>The text of a whole Morse string: its word segments decoded and joined by one space.\<close>

definition decoded :: "string \<Rightarrow> string" where
  "decoded m = join '' '' (map decode_word (word_segments m))"

text \<open>
  Written from the specification's words, not from the code: \<open>collapse_internal_literal_whitespace\<close>
  replaces every run of consecutive spaces by a single space.
\<close>

fun collapse_internal_literal_whitespace :: "string \<Rightarrow> string" where
  "collapse_internal_literal_whitespace [] = []"
| "collapse_internal_literal_whitespace [c] = [c]"
| "collapse_internal_literal_whitespace (c # d # cs) =
     (if c = CHR '' '' \<and> d = CHR '' '' then collapse_internal_literal_whitespace (d # cs)
      else c # collapse_internal_literal_whitespace (d # cs))"

text \<open>
  The samples of one tone burst (sample \<open>i\<close> of a burst of \<open>n\<close> samples), and the number
  of zero samples that a run of \<open>n\<close> spaces adds, as the lemmas below derive them from
  \<open>generate_loop\<close>.
\<close>

definition burst :: "nat \<Rightarrow> sample list" where
  "burst n = map (sine_sample 800 44100) [0 ..< n]"

definition symbol_samples :: "char \<Rightarrow> nat" where
  "symbol_samples c = (if c = CHR ''.'' then 4410 else 13230)"

definition gap_samples :: "nat \<Rightarrow> nat" where
  "gap_samples n = (if n = 1 then 13230 else if 3 \<le> n then 30869 else 0)"

chapter \<open>Properties\<close>

declare split_loop.simps [simp del] tokens.simps [simp del] decode_words.simps [simp del]
  generate_loop.simps [simp del] space_counts.simps [simp del]

section \<open>The text codec\<close>

subsection \<open>The symbol table\<close>

lemma fold_upd_map_of:
  "fold (\<lambda>(c, s) m. m(c \<mapsto> s)) xs m0 = m0 ++ map_of (rev xs)"
  by (induction xs arbitrary: m0) (auto simp: map_add_def fun_eq_iff split: option.splits)

lemma fold_upd_map_of_swap:
  "fold (\<lambda>(c, s) m. m(s \<mapsto> c)) xs m0 = m0 ++ map_of (rev (map (\<lambda>(c, s). (s, c)) xs))"
  by (induction xs arbitrary: m0) (auto simp: map_add_def fun_eq_iff split: option.splits)

lemma distinct_keys: "distinct (map fst mappings)"
  by (simp add: mappings_def)

lemma distinct_patterns: "distinct (map snd mappings)"
  by (simp add: mappings_def)

lemma charToMorse_map_of: "charToMorse = map_of mappings"
  unfolding charToMorse_def fold_upd_map_of
  using distinct_keys by (simp add: map_of_inject_set distinct_rev rev_map[symmetric])

lemma fst_swap: "map fst (map (\<lambda>(c, s). (s, c)) xs) = map snd xs"
  by (induction xs) auto

lemma morseToChar_map_of: "morseToChar = map_of (map (\<lambda>(c, s). (s, c)) mappings)"
proof -
  from distinct_patterns have "distinct (map fst (map (\<lambda>(c, s). (s, c)) mappings))"
    by (simp only: fst_swap)
  then show ?thesis
    unfolding morseToChar_def fold_upd_map_of_swap
    by (simp add: map_of_inject_set distinct_rev rev_map[symmetric])
qed

lemma alphabet_eq: "alphabet = set ''ABCDEFGHIJKLMNOPQRSTUVWXYZ0123456789.,? ''"
  unfolding alphabet_def charToMorse_map_of dom_map_of_conv_image_fst
  by (simp add: mappings_def)

lemma card_alphabet: "card alphabet = 40"
proof -
  have "card (fst ` set mappings) = length (map fst mappings)"
    using distinct_keys distinct_card by fastforce
  then show ?thesis
    unfolding alphabet_def charToMorse_map_of dom_map_of_conv_image_fst
    by (simp add: mappings_def)
qed

lemma morseToChar_charToMorse:
  "charToMorse c = Some p \<Longrightarrow> morseToChar p = Some c"
proof -
  assume "charToMorse c = Some p"
  then have "(c, p) \<in> set mappings" by (simp add: charToMorse_map_of map_of_SomeD)
  then have "(p, c) \<in> set (map (\<lambda>(c, s). (s, c)) mappings)" by force
  moreover have "distinct (map fst (map (\<lambda>(c, s). (s, c)) mappings))"
    using distinct_patterns by (simp only: fst_swap)
  ultimately show ?thesis unfolding morseToChar_map_of by (rule map_of_is_SomeI[rotated])
qed

lemma pattern_tokenlike:
  assumes "charToMorse c = Some p" "c \<noteq> CHR '' ''"
  shows "tokenlike p" and "set p \<subseteq> {CHR ''.'', CHR ''-''}"
proof -
  from assms(1) have "(c, p) \<in> set mappings" by (simp add: charToMorse_map_of map_of_SomeD)
  with assms(2) have "p \<noteq> [] \<and> set p \<subseteq> {CHR ''.'', CHR ''-''}"
    unfolding mappings_def by auto
  then show "set p \<subseteq> {CHR ''.'', CHR ''-''}" and "tokenlike p"
    by (auto simp: tokenlike_def isspace_def)
qed


subsection \<open>Decoding\<close>

lemma find_str_Some:
  assumes "find_str s pat pos = Some i"
  shows "pos \<le> i" and "i + length pat \<le> length s" and "take (length pat) (drop i s) = pat"
proof -
  from assms obtain k where k: "k < length [pos ..< Suc (length s) - length pat]"
      "[pos ..< Suc (length s) - length pat] ! k = i" "take (length pat) (drop i s) = pat"
    unfolding find_str_def find_Some_iff by blast
  from k(1,2) have "i = pos + k" "pos + k < Suc (length s) - length pat" by auto
  then show "pos \<le> i" "i + length pat \<le> length s" by auto
  from k(3) show "take (length pat) (drop i s) = pat" .
qed

lemma find_map_opt: "List.find P (map f xs) = map_option f (List.find (\<lambda>x. P (f x)) xs)"
  by (induction xs) auto

lemma find_str_shift:
  assumes "pos \<le> length s"
  shows "find_str s pat pos = map_option (\<lambda>j. j + pos) (find_str (drop pos s) pat 0)"
proof -
  define K where "K = Suc (length s - pos) - length pat"
  have "map (\<lambda>j. j + pos) [0 ..< K] = [pos ..< K + pos]"
    using map_add_upt[of pos K] by simp
  moreover have "[pos ..< K + pos] = [pos ..< Suc (length s) - length pat]"
  proof (cases "pos + length pat \<le> Suc (length s)")
    case True
    with assms have "K + pos = Suc (length s) - length pat" by (simp add: K_def)
    then show ?thesis by simp
  next
    case False
    with assms have "K = 0" "Suc (length s) - length pat \<le> pos" by (auto simp: K_def)
    then show ?thesis by simp
  qed
  ultimately have eq: "[pos ..< Suc (length s) - length pat] = map (\<lambda>j. j + pos) [0 ..< Suc (length s - pos) - length pat]"
    by (simp add: K_def)
  show ?thesis
    unfolding find_str_def eq find_map_opt
    by (simp add: comp_def add.commute)
qed

declare word_segments.simps [simp del]

lemma split_loop_segments:
  "prev \<le> length m \<Longrightarrow>
     \<exists>p ws'. split_loop m prev ws = Inr (p, ws') \<and> p \<le> length m \<and>
        ws' @ [drop p m] = ws @ word_segments (drop prev m)"
proof (induction m prev ws rule: split_loop.induct)
  case (1 morse prev words)
  show ?case
  proof (cases "find_str morse ''   '' prev")
    case None
    then have "find_str (drop prev morse) ''   '' 0 = None"
      using find_str_shift[OF 1(2), of "''   ''"] by simp
    then show ?thesis using None 1(2)
      by (simp add: split_loop.simps[of morse prev] word_segments.simps[of "drop prev morse"])
  next
    case (Some pos)
    from find_str_Some[OF Some] have pos: "prev \<le> pos" "pos + 3 \<le> length morse" by auto
    have sub: "substr morse prev (pos - prev) = Inr (take (pos - prev) (drop prev morse))"
      using 1(2) by (simp add: substr_def)
    have f0: "find_str (drop prev morse) ''   '' 0 = Some (pos - prev)"
      using find_str_shift[OF 1(2), of "''   ''"] Some pos by (auto simp: map_option_case split: option.splits)
    from 1(1)[OF Some sub] pos obtain p ws' where
      ih: "split_loop morse (pos + 3) (words @ [take (pos - prev) (drop prev morse)]) = Inr (p, ws')"
          "p \<le> length morse"
          "ws' @ [drop p morse] = (words @ [take (pos - prev) (drop prev morse)]) @ word_segments (drop (pos + 3) morse)"
      by auto
    have "drop (pos - prev + 3) (drop prev morse) = drop (pos + 3) morse"
      using pos by (simp add: add.commute)
    then have "word_segments (drop prev morse)
       = take (pos - prev) (drop prev morse) # word_segments (drop (pos + 3) morse)"
      using f0 by (simp add: word_segments.simps[of "drop prev morse"])
    with ih show ?thesis using Some sub
      by (simp add: split_loop.simps[of morse prev])
  qed
qed

lemma decode_tokens_eq: "decode_tokens ts text = Inr (text @ concat (map token_text ts))"
  by (induction ts arbitrary: "text") (auto simp: token_text_def map_at_def)

lemma decode_words_eq:
  "i \<le> length ws \<Longrightarrow> decode_words ws i text = Inr (text @ join '' '' (map decode_word (drop i ws)))"
proof (induction ws i "text" rule: decode_words.induct)
  case (1 words i t)
  show ?case
  proof (cases "i < length words")
    case False
    with 1(2) show ?thesis by (subst decode_words.simps) simp
  next
    case True
    let ?t1 = "t @ decode_word (words ! i)"
    have dt: "decode_tokens (tokens (words ! i)) t = Inr ?t1"
      by (simp add: decode_tokens_eq decode_word_def)
    from True have d: "drop i words = words ! i # drop (Suc i) words"
      by (simp add: Cons_nth_drop_Suc)
    let ?t2 = "if i \<noteq> length words - 1 then ?t1 @ '' '' else ?t1"
    have unfold: "decode_words words i t = decode_words words (Suc i) ?t2"
      using True dt by (subst decode_words.simps) simp
    from True have "Suc i \<le> length words" by simp
    from 1(1)[OF True dt this]
    have ih: "decode_words words (Suc i) ?t2 = Inr (?t2 @ join '' '' (map decode_word (drop (Suc i) words)))" .
    show ?thesis
    proof (cases "i = length words - 1")
      case True
      with \<open>i < length words\<close> have "drop (Suc i) words = []" by simp
      with True show ?thesis unfolding unfold ih d by simp
    next
      case False
      with \<open>i < length words\<close> have "Suc i < length words" by simp
      then obtain y ys where "drop (Suc i) words = y # ys"
        by (cases "drop (Suc i) words") auto
      with False show ?thesis unfolding unfold ih d by simp
    qed
  qed
qed

lemma decode_eq: "decode m = Inr (join '' '' (map decode_word (word_segments m)))"
proof -
  from split_loop_segments[of 0 m "[]"] obtain p ws' where
    "split_loop m 0 [] = Inr (p, ws')" "p \<le> length m" "ws' @ [drop p m] = word_segments m"
    by auto
  then show ?thesis
    using decode_words_eq[of 0 "ws' @ [drop p m]" "[]"]
    by (simp add: decode_def substr_end_def)
qed

lemma isspace_space [simp]: "isspace (CHR '' '')"
  by (simp add: isspace_def)

lemma tokens_Nil [simp]: "tokens [] = []"
  by (simp add: tokens.simps)

lemma tokens_space [simp]: "tokens (CHR '' '' # r) = tokens r"
  by (simp add: tokens.simps[of "CHR '' '' # r"] tokens.simps[of r])

lemma tokens_token:
  assumes "tokenlike p" and "r = [] \<or> isspace (hd r)"
  shows "tokens (p @ r) = p # tokens r"
proof -
  from assms(1) obtain c cs where p: "p = c # cs" and c: "\<not> isspace c"
    and cs: "\<forall>d\<in>set p. \<not> isspace d"
    by (cases p) (auto simp: tokenlike_def)
  have d: "dropWhile isspace (p @ r) = p @ r" using p c by simp
  have t: "takeWhile (\<lambda>c. \<not> isspace c) (p @ r) = p"
    using cs assms(2) by (cases r) (auto simp: takeWhile_append2)
  have e: "dropWhile (\<lambda>c. \<not> isspace c) (p @ r) = r"
    using cs assms(2) by (cases r) (auto simp: dropWhile_append2)
  from p have "p @ r \<noteq> []" by simp
  then show ?thesis
    by (simp add: tokens.simps[of "p @ r"] d t e Let_def)
qed

lemma tokens_join: "\<forall>p\<in>set ts. tokenlike p \<Longrightarrow> tokens (join '' '' ts) = ts"
proof (induction "'' ''" ts rule: join.induct)
  case 1
  then show ?case by simp
next
  case (2 x)
  then show ?case using tokens_token[of x "[]"] by simp
next
  case (3 x y ys)
  then show ?case using tokens_token[of x "CHR '' '' # join '' '' (y # ys)"] by simp
qed

lemma join_snoc: "ts \<noteq> [] \<Longrightarrow> join sep (ts @ [p]) = join sep ts @ sep @ p"
  by (induction sep ts rule: join.induct) auto

lemma find3_Nil [simp]: "find_str [] ''   '' 0 = None"
  by (simp add: find_str_def)

lemma find_str_Cons:
  "find_str (c # s) pat 0 =
     (if take (length pat) (c # s) = pat then Some 0 else map_option Suc (find_str s pat 0))"
proof (cases "Suc (length (c # s)) - length pat = 0")
  case True
  then have "length (take (length pat) (c # s)) < length pat" by simp
  then have "take (length pat) (c # s) \<noteq> pat" by (metis nat_neq_iff)
  moreover from True have "find_str (c # s) pat 0 = None" "find_str s pat 0 = None"
    by (auto simp: find_str_def)
  ultimately show ?thesis by simp
next
  case False
  then have "[0 ..< Suc (length (c # s)) - length pat] = 0 # [1 ..< Suc (length (c # s)) - length pat]"
    by (simp add: upt_conv_Cons)
  then have "find_str (c # s) pat 0 =
      (if take (length pat) (c # s) = pat then Some 0 else find_str (c # s) pat 1)"
    by (simp add: find_str_def)
  moreover have "find_str (c # s) pat 1 = map_option Suc (find_str s pat 0)"
    using find_str_shift[of 1 "c # s" pat] by simp
  ultimately show ?thesis by simp
qed

lemma find3_Cons:
  "find_str (c # s) ''   '' 0 =
     (if take 3 (c # s) = ''   '' then Some 0 else map_option Suc (find_str s ''   '' 0))"
  using find_str_Cons[of c s "''   ''"] by (simp add: numeral_3_eq_3)

lemma find3_token:
  "\<forall>c\<in>set p. c \<noteq> CHR '' '' \<Longrightarrow>
     find_str (p @ r) ''   '' 0 = map_option (\<lambda>i. i + length p) (find_str r ''   '' 0)"
  by (induction p) (auto simp: find3_Cons option.map_comp comp_def option.map_ident)

lemma find3_single_space:
  "r \<noteq> [] \<Longrightarrow> hd r \<noteq> CHR '' '' \<Longrightarrow>
     find_str (CHR '' '' # r) ''   '' 0 = map_option Suc (find_str r ''   '' 0)"
  by (cases r) (auto simp: find3_Cons)

lemma find3_marker [simp]:
  "find_str (CHR '' '' # CHR '' '' # CHR '' '' # r) ''   '' 0 = Some 0"
  by (simp add: find3_Cons)

lemma tokenlike_no_space: "tokenlike p \<Longrightarrow> \<forall>c\<in>set p. c \<noteq> CHR '' ''"
  by (auto simp: tokenlike_def)

lemma join_Cons_ne: "ys \<noteq> [] \<Longrightarrow> join sep (x # ys) = x @ sep @ join sep ys"
  by (cases ys) auto

lemma join_tokens_hd:
  assumes "\<forall>p\<in>set (y # ys). tokenlike p"
  shows "join '' '' (y # ys) @ r \<noteq> []" and "hd (join '' '' (y # ys) @ r) \<noteq> CHR '' ''"
proof -
  from assms have "tokenlike y" by simp
  then have "y \<noteq> []" "\<forall>c\<in>set y. c \<noteq> CHR '' ''"
    using tokenlike_no_space[of y] by (simp_all add: tokenlike_def)
  then have y: "y \<noteq> []" "hd y \<noteq> CHR '' ''"
    using hd_in_set[of y] by auto
  obtain z where z: "join '' '' (y # ys) = y @ z" by (cases ys) auto
  with y show "join '' '' (y # ys) @ r \<noteq> []" by simp
  from z y show "hd (join '' '' (y # ys) @ r) \<noteq> CHR '' ''" by simp
qed

lemma find3_join_marker:
  "\<forall>p\<in>set ts. tokenlike p \<Longrightarrow>
     find_str (join '' '' ts @ CHR '' '' # CHR '' '' # CHR '' '' # r) ''   '' 0
       = Some (length (join '' '' ts))"
proof (induction ts)
  case Nil
  then show ?case by simp
next
  case (Cons x ts)
  from Cons.prems have x: "\<forall>c\<in>set x. c \<noteq> CHR '' ''"
    using tokenlike_no_space[of x] by simp
  let ?R = "CHR '' '' # CHR '' '' # CHR '' '' # r"
  show ?case
  proof (cases ts)
    case Nil
    then show ?thesis using find3_token[OF x, of ?R] by simp
  next
    case (Cons y ys)
    let ?rest = "join '' '' ts @ ?R"
    from Cons.prems Cons have tl: "\<forall>p\<in>set (y # ys). tokenlike p" by simp
    have ne: "?rest \<noteq> []" "hd ?rest \<noteq> CHR '' ''"
      using join_tokens_hd[OF tl, of ?R] Cons by simp_all
    have a: "find_str ?rest ''   '' 0 = Some (length (join '' '' ts))"
      using Cons.IH Cons.prems by simp
    have b: "find_str (CHR '' '' # ?rest) ''   '' 0 = Some (Suc (length (join '' '' ts)))"
      unfolding find3_single_space[OF ne] a by simp
    have c: "find_str (x @ CHR '' '' # ?rest) ''   '' 0 = Some (Suc (length (join '' '' ts)) + length x)"
      unfolding find3_token[OF x] b by simp
    have "join '' '' (x # ts) @ ?R = x @ CHR '' '' # ?rest"
      using Cons by simp
    moreover have "length (join '' '' (x # ts)) = Suc (length (join '' '' ts)) + length x"
      using Cons by simp
    ultimately show ?thesis using c by simp
  qed
qed

lemma find3_join:
  "\<forall>p\<in>set ts. tokenlike p \<Longrightarrow> find_str (join '' '' ts) ''   '' 0 = None"
proof (induction ts)
  case Nil
  then show ?case by simp
next
  case (Cons x ts)
  from Cons.prems have x: "\<forall>c\<in>set x. c \<noteq> CHR '' ''"
    using tokenlike_no_space[of x] by simp
  show ?case
  proof (cases ts)
    case Nil
    then show ?thesis using find3_token[OF x, of "[]"] by simp
  next
    case (Cons y ys)
    let ?rest = "join '' '' ts"
    from Cons.prems Cons have tl: "\<forall>p\<in>set (y # ys). tokenlike p" by simp
    have ne: "?rest \<noteq> []" "hd ?rest \<noteq> CHR '' ''"
      using join_tokens_hd[OF tl, of "[]"] Cons by simp_all
    have a: "find_str ?rest ''   '' 0 = None"
      using Cons.IH Cons.prems by simp
    have b: "find_str (CHR '' '' # ?rest) ''   '' 0 = None"
      unfolding find3_single_space[OF ne] a by simp
    have c: "find_str (x @ CHR '' '' # ?rest) ''   '' 0 = None"
      unfolding find3_token[OF x] b by simp
    have "join '' '' (x # ts) = x @ CHR '' '' # ?rest"
      using Cons by simp
    then show ?thesis using c by simp
  qed
qed

lemma word_segments_ne [simp]: "word_segments s \<noteq> []"
  by (simp add: word_segments.simps[of s] split: option.splits)

lemma word_segments_join_marker:
  "\<forall>p\<in>set ts. tokenlike p \<Longrightarrow>
     word_segments (join '' '' ts @ ''   '' @ r) = join '' '' ts # word_segments r"
  using find3_join_marker[of ts r]
  by (simp add: word_segments.simps[of "join '' '' ts @ CHR '' '' # CHR '' '' # CHR '' '' # r"])

lemma word_segments_join:
  "\<forall>p\<in>set ts. tokenlike p \<Longrightarrow> word_segments (join '' '' ts) = [join '' '' ts]"
  by (simp add: word_segments.simps[of "join '' '' ts"] find3_join)

lemma decode_word_join:
  "\<forall>p\<in>set ts. tokenlike p \<Longrightarrow> decode_word (join '' '' ts) = concat (map token_text ts)"
  by (simp add: decode_word_def tokens_join)

subsection \<open>Encoding\<close>

lemma space_in_alphabet: "CHR '' '' \<in> alphabet"
  by (simp add: alphabet_eq)

lemma encode_step_ok:
  assumes "toupper c \<in> alphabet"
  shows "encode_step c (acc, prev) =
           Inr (if toupper c = CHR '' '' then (acc @ ''   '', True)
                else ((if acc \<noteq> [] \<and> \<not> prev then acc @ '' '' else acc)
                        @ the (charToMorse (toupper c)), False))"
proof -
  from assms obtain p where "charToMorse (toupper c) = Some p"
    by (auto simp: alphabet_def)
  then show ?thesis by (simp add: Let_def)
qed

lemma encode_step_bad:
  assumes "toupper c \<notin> alphabet"
  shows "encode_step c st = Inl (UnsupportedCharacter (toupper c))"
proof -
  from assms have "charToMorse (toupper c) = None" "toupper c \<noteq> CHR '' ''"
    using space_in_alphabet by (auto simp: alphabet_def)
  then show ?thesis by (cases st) (simp add: Let_def)
qed

lemma encode_loop_ok:
  "\<forall>c\<in>set s. toupper c \<in> alphabet \<Longrightarrow>
     encode_loop s (acc, prev) = Inr (acc @ morse_of (acc \<noteq> [] \<and> \<not> prev) s)"
proof (induction s arbitrary: acc prev)
  case Nil
  then show ?case by simp
next
  case (Cons c s)
  then have c: "toupper c \<in> alphabet" and s: "\<forall>c\<in>set s. toupper c \<in> alphabet" by auto
  show ?case
  proof (cases "toupper c = CHR '' ''")
    case True
    then show ?thesis using Cons.IH[OF s, of "acc @ ''   ''" True] encode_step_ok[OF c, of acc prev]
      by simp
  next
    case False
    from c obtain p where p: "charToMorse (toupper c) = Some p" by (auto simp: alphabet_def)
    with False have "p \<noteq> []" using pattern_tokenlike(1)[OF p] by (simp add: tokenlike_def)
    then show ?thesis
      using False p Cons.IH[OF s, of "(if acc \<noteq> [] \<and> \<not> prev then acc @ '' '' else acc) @ p" False]
        encode_step_ok[OF c, of acc prev]
      by simp
  qed
qed

lemma encode_ok: "\<forall>c\<in>set s. toupper c \<in> alphabet \<Longrightarrow> encode s = Inr (morse_of False s)"
  using encode_loop_ok[of s "[]" False] by (simp add: encode_def)

lemma encode_loop_bad:
  "\<exists>c\<in>set s. toupper c \<notin> alphabet \<Longrightarrow>
     \<exists>c\<in>set s. toupper c \<notin> alphabet \<and> encode_loop s st = Inl (UnsupportedCharacter (toupper c))"
proof (induction s arbitrary: st)
  case Nil
  then show ?case by simp
next
  case (Cons c s)
  show ?case
  proof (cases "toupper c \<in> alphabet")
    case False
    then show ?thesis using encode_step_bad[OF False, of st] by simp
  next
    case True
    with Cons.prems have "\<exists>c\<in>set s. toupper c \<notin> alphabet" by auto
    moreover obtain st' where "encode_step c st = Inr st'"
      using encode_step_ok[OF True] by (cases st) auto
    ultimately show ?thesis using Cons.IH[of st'] by auto
  qed
qed

subsection \<open>Decoding what the encoder wrote\<close>

lemma decoded_marker:
  assumes "\<forall>p\<in>set ts. tokenlike p"
  shows "decoded (join '' '' ts @ ''   '' @ r) = concat (map token_text ts) @ '' '' @ decoded r"
  using assms
  by (simp add: decoded_def word_segments_join_marker join_Cons_ne decode_word_join del: append.simps)

lemma decoded_word:
  assumes "\<forall>p\<in>set ts. tokenlike p"
  shows "decoded (join '' '' ts) = concat (map token_text ts)"
  using assms by (simp add: decoded_def word_segments_join decode_word_join)

lemma token_text_pattern:
  "charToMorse c = Some p \<Longrightarrow> token_text p = [c]"
  by (simp add: token_text_def morseToChar_charToMorse)

lemma roundtrip_aux:
  "\<forall>c\<in>set s. toupper c \<in> alphabet \<Longrightarrow>
     decoded (morse_of False s) = map toupper s \<and>
     (\<forall>ts. (\<forall>p\<in>set ts. tokenlike p) \<longrightarrow> ts \<noteq> [] \<longrightarrow>
        decoded (join '' '' ts @ morse_of True s) = concat (map token_text ts) @ map toupper s)"
proof (induction s)
  case Nil
  show ?case using decoded_word[of "[]"] decoded_word by simp
next
  case (Cons c s)
  from Cons.prems have c: "toupper c \<in> alphabet" and s: "\<forall>c\<in>set s. toupper c \<in> alphabet"
    by auto
  note ih1 = Cons.IH[OF s, THEN conjunct1]
  note ih2 = Cons.IH[OF s, THEN conjunct2, rule_format]
  obtain p where p: "charToMorse (toupper c) = Some p" using c by (auto simp: alphabet_def)
  show ?case
  proof (cases "toupper c = CHR '' ''")
    case True
    have "decoded (morse_of False (c # s)) = map toupper (c # s)"
      using True decoded_marker[of "[]" "morse_of False s"] ih1 by simp
    moreover have "decoded (join '' '' ts @ morse_of True (c # s))
         = concat (map token_text ts) @ map toupper (c # s)"
      if "\<forall>p\<in>set ts. tokenlike p" for ts
      using True decoded_marker[OF that, of "morse_of False s"] ih1 by simp
    ultimately show ?thesis by blast
  next
    case False
    with p have tp: "tokenlike p" by (simp add: pattern_tokenlike(1))
    have "decoded (morse_of False (c # s)) = map toupper (c # s)"
      using False p tp ih2[of "[p]"] token_text_pattern[OF p] by simp
    moreover have "decoded (join '' '' ts @ morse_of True (c # s))
         = concat (map token_text ts) @ map toupper (c # s)"
      if ts: "\<forall>p\<in>set ts. tokenlike p" "ts \<noteq> []" for ts
    proof -
      have eq: "join '' '' ts @ morse_of True (c # s) = join '' '' (ts @ [p]) @ morse_of True s"
        using False p ts(2) by (simp add: join_snoc)
      have "decoded (join '' '' (ts @ [p]) @ morse_of True s)
              = concat (map token_text (ts @ [p])) @ map toupper s"
        using tp ts(1) by (intro ih2) auto
      then show ?thesis
        unfolding eq using token_text_pattern[OF p] by simp
    qed
    ultimately show ?thesis by blast
  qed
qed

subsection \<open>Runs of spaces in what the encoder wrote\<close>

lemma space_counts_Nil [simp]: "space_counts [] = []"
  by (simp add: space_counts.simps)

lemma space_counts_nonspace [simp]:
  "c \<noteq> CHR '' '' \<Longrightarrow> space_counts (c # cs) = space_counts cs"
  by (simp add: space_counts.simps)

lemma space_counts_token:
  "\<forall>c\<in>set p. c \<noteq> CHR '' '' \<Longrightarrow> space_counts (p @ r) = space_counts r"
  by (induction p) auto

lemma takeWhile_replicate_app:
  "takeWhile (\<lambda>d. d = c) (replicate n c @ r) = replicate n c @ takeWhile (\<lambda>d. d = c) r"
  by (induction n) auto

lemma dropWhile_replicate_app:
  "dropWhile (\<lambda>d. d = c) (replicate n c @ r) = dropWhile (\<lambda>d. d = c) r"
  by (induction n) auto

lemma run_split:
  "r = replicate (length (takeWhile (\<lambda>d. d = c) r)) c @ dropWhile (\<lambda>d. d = c) r"
  by (induction r) auto

lemma dropWhile_unchanged: "r = [] \<or> hd r \<noteq> c \<Longrightarrow> dropWhile (\<lambda>d. d = c) r = r"
  by (cases r) auto

lemma takeWhile_empty: "r = [] \<or> hd r \<noteq> c \<Longrightarrow> takeWhile (\<lambda>d. d = c) r = []"
  by (cases r) auto

lemma dropWhile_keeps_last:
  "pre \<noteq> [] \<Longrightarrow> last pre \<noteq> c \<Longrightarrow>
     dropWhile (\<lambda>d. d = c) pre \<noteq> [] \<and> last (dropWhile (\<lambda>d. d = c) pre) \<noteq> c
       \<and> hd (dropWhile (\<lambda>d. d = c) pre) \<noteq> c"
  by (induction pre) (auto split: if_splits)

lemma space_counts_run:
  assumes "0 < n"
  shows "space_counts (replicate n (CHR '' '') @ r)
           = (n + length (takeWhile (\<lambda>d. d = CHR '' '') r))
               # space_counts (dropWhile (\<lambda>d. d = CHR '' '') r)"
proof -
  from assms obtain k where n: "n = Suc k" by (cases n) auto
  have t: "takeWhile (\<lambda>d. d = CHR '' '') (replicate n (CHR '' '') @ r)
            = replicate n (CHR '' '') @ takeWhile (\<lambda>d. d = CHR '' '') r"
    by (rule takeWhile_replicate_app)
  have d: "dropWhile (\<lambda>d. d = CHR '' '') (replicate n (CHR '' '') @ r)
            = dropWhile (\<lambda>d. d = CHR '' '') r"
    by (rule dropWhile_replicate_app)
  have "space_counts (CHR '' '' # replicate k (CHR '' '') @ r)
          = length (takeWhile (\<lambda>d. d = CHR '' '') (CHR '' '' # replicate k (CHR '' '') @ r))
              # space_counts (dropWhile (\<lambda>d. d = CHR '' '') (CHR '' '' # replicate k (CHR '' '') @ r))"
    by (simp add: space_counts.simps(2)[of "CHR '' ''"])
  then show ?thesis using t d unfolding n by simp
qed

lemma space_counts_dropWhile:
  "set (space_counts (dropWhile (\<lambda>d. d = CHR '' '') r)) \<subseteq> set (space_counts r)"
proof (cases "length (takeWhile (\<lambda>d. d = CHR '' '') r) = 0")
  case True
  then have "dropWhile (\<lambda>d. d = CHR '' '') r = r"
    using run_split[of r "CHR '' ''"] by simp
  then show ?thesis by simp
next
  case False
  let ?n = "length (takeWhile (\<lambda>d. d = CHR '' '') r)"
  let ?d = "dropWhile (\<lambda>d. d = CHR '' '') r"
  have hd: "?d = [] \<or> hd ?d \<noteq> CHR '' ''" using hd_dropWhile[of "\<lambda>d. d = CHR '' ''" r] by blast
  have "space_counts (replicate ?n (CHR '' '') @ ?d) = ?n # space_counts ?d"
    using space_counts_run[of ?n ?d] False takeWhile_empty[OF hd] dropWhile_unchanged[OF hd]
    by simp
  then have "space_counts r = ?n # space_counts ?d"
    using run_split[of r "CHR '' ''"] by simp
  then show ?thesis by auto
qed

lemma morse_of_counts:
  "\<forall>c\<in>set s. toupper c \<in> alphabet \<Longrightarrow>
     (\<forall>a. \<forall>n\<in>set (space_counts (morse_of a s)). n = 1 \<or> 3 dvd n) \<and>
     3 dvd length (takeWhile (\<lambda>d. d = CHR '' '') (morse_of False s))"
proof (induction s)
  case Nil
  then show ?case by simp
next
  case (Cons c s)
  from Cons.prems have c: "toupper c \<in> alphabet" and s: "\<forall>c\<in>set s. toupper c \<in> alphabet"
    by auto
  note ih1 = Cons.IH[OF s, THEN conjunct1, rule_format]
  note ih2 = Cons.IH[OF s, THEN conjunct2]
  let ?M = "morse_of False s"
  show ?case
  proof (cases "toupper c = CHR '' ''")
    case True
    have m: "morse_of a (c # s) = replicate 3 (CHR '' '') @ ?M" for a
      using True by (simp add: numeral_3_eq_3)
    have "space_counts (morse_of a (c # s))
        = (3 + length (takeWhile (\<lambda>d. d = CHR '' '') ?M))
            # space_counts (dropWhile (\<lambda>d. d = CHR '' '') ?M)" for a
      unfolding m by (rule space_counts_run) simp
    moreover have "length (takeWhile (\<lambda>d. d = CHR '' '') (morse_of False (c # s)))
        = 3 + length (takeWhile (\<lambda>d. d = CHR '' '') ?M)"
      using True by simp
    ultimately have "\<forall>n\<in>set (space_counts (morse_of a (c # s))). n = 1 \<or> 3 dvd n"
      and "3 dvd length (takeWhile (\<lambda>d. d = CHR '' '') (morse_of False (c # s)))" for a
      using ih1[of _ False] ih2 space_counts_dropWhile[of ?M] by (simp_all add: subset_iff)
    then show ?thesis by blast
  next
    case False
    obtain p where p: "charToMorse (toupper c) = Some p" using c by (auto simp: alphabet_def)
    from pattern_tokenlike(1)[OF p False] have ns: "\<forall>c\<in>set p. c \<noteq> CHR '' ''" and ne: "p \<noteq> []"
      using tokenlike_no_space by (auto simp: tokenlike_def)
    have f: "morse_of False (c # s) = p @ morse_of True s" using False p by simp
    have t: "morse_of True (c # s) = CHR '' '' # p @ morse_of True s" using False p by simp
    have "space_counts (morse_of False (c # s)) = space_counts (morse_of True s)"
      unfolding f by (rule space_counts_token[OF ns])
    moreover have "space_counts (morse_of True (c # s)) = 1 # space_counts (morse_of True s)"
    proof -
      have "p @ morse_of True s = [] \<or> hd (p @ morse_of True s) \<noteq> CHR '' ''"
        using ns ne by (cases p) auto
      from takeWhile_empty[OF this] dropWhile_unchanged[OF this] show ?thesis
        unfolding t using space_counts_run[of 1 "p @ morse_of True s"] space_counts_token[OF ns]
        by simp
    qed
    moreover have "takeWhile (\<lambda>d. d = CHR '' '') (morse_of False (c # s)) = []"
      unfolding f using ns ne by (cases p) auto
    ultimately have "\<forall>n\<in>set (space_counts (morse_of a (c # s))). n = 1 \<or> 3 dvd n"
      and "3 dvd length (takeWhile (\<lambda>d. d = CHR '' '') (morse_of False (c # s)))" for a
      using ih1[of _ True] by (cases a; simp)+
    then show ?thesis by blast
  qed
qed

lemma maximal_run_counted:
  "pre = [] \<or> last pre \<noteq> CHR '' '' \<Longrightarrow> 0 < n \<Longrightarrow> post = [] \<or> hd post \<noteq> CHR '' '' \<Longrightarrow>
     n \<in> set (space_counts (pre @ replicate n (CHR '' '') @ post))"
proof (induction pre rule: length_induct)
  case (1 pre)
  note post = takeWhile_empty[OF 1(4)] dropWhile_unchanged[OF 1(4)]
  show ?case
  proof (cases pre)
    case Nil
    then show ?thesis using space_counts_run[OF 1(3), of post] post by simp
  next
    case (Cons c pre')
    show ?thesis
    proof (cases "c = CHR '' ''")
      case False
      have lp: "pre' = [] \<or> last pre' \<noteq> CHR '' ''" using 1(2) Cons by (auto split: if_splits)
      have len': "length pre' < length pre" using Cons by simp
      from 1(1)[rule_format, OF len' lp 1(3) 1(4)]
      show ?thesis using Cons False by simp
    next
      case True
      have "pre \<noteq> []" "last pre \<noteq> CHR '' ''" using 1(2) Cons by simp_all
      note keeps = dropWhile_keeps_last[OF this]
      define k where "k = length (takeWhile (\<lambda>d. d = CHR '' '') pre)"
      define r where "r = dropWhile (\<lambda>d. d = CHR '' '') pre"
      have pre: "pre = replicate k (CHR '' '') @ r"
        unfolding k_def r_def by (rule run_split)
      have k: "0 < k" unfolding k_def using True Cons by simp
      have rne: "r \<noteq> []" and lastr: "last r \<noteq> CHR '' ''" and hd: "hd r \<noteq> CHR '' ''"
        unfolding r_def using keeps by simp_all
      let ?X = "r @ replicate n (CHR '' '') @ post"
      from pre k have len: "length r < length pre" by simp
      have hdX: "?X = [] \<or> hd ?X \<noteq> CHR '' ''" using rne hd by simp
      have "space_counts (replicate k (CHR '' '') @ ?X) = k # space_counts ?X"
        using space_counts_run[OF k, of ?X] takeWhile_empty[OF hdX] dropWhile_unchanged[OF hdX]
        by simp
      moreover have "r = [] \<or> last r \<noteq> CHR '' ''" using lastr by simp
      from 1(1)[rule_format, OF len this 1(3) 1(4)]
      have "n \<in> set (space_counts ?X)" .
      ultimately show ?thesis unfolding pre by simp
    qed
  qed
qed

lemma encode_Inr_alphabet:
  assumes "encode s = Inr m"
  shows "\<forall>c\<in>set s. toupper c \<in> alphabet"
proof (rule ccontr)
  assume "\<not> ?thesis"
  then have "\<exists>c\<in>set s. toupper c \<notin> alphabet" by simp
  from encode_loop_bad[OF this, of "([], False)"] assms show False by (auto simp: encode_def)
qed

subsection \<open>The claims about the text codec\<close>

lemma join_word_segments: "join ''   '' (word_segments m) = m"
proof (induction m rule: word_segments.induct)
  case (1 s)
  show ?case
  proof (cases "find_str s ''   '' 0")
    case None
    then show ?thesis by (simp add: word_segments.simps[of s])
  next
    case (Some p)
    from find_str_Some[OF Some] have p: "p + 3 \<le> length s" "take 3 (drop p s) = ''   ''"
      by (simp_all add: numeral_3_eq_3)
    have "s = take p s @ take 3 (drop p s) @ drop 3 (drop p s)"
      by (metis append_take_drop_id)
    then have s: "s = take p s @ ''   '' @ drop (p + 3) s"
      using p(2) by (simp add: add.commute)
    have "join ''   '' (word_segments s)
        = take p s @ ''   '' @ join ''   '' (word_segments (drop (p + 3) s))"
      using Some by (simp add: word_segments.simps[of s] join_Cons_ne)
    also have "\<dots> = take p s @ ''   '' @ drop (p + 3) s"
      using 1[OF Some] by simp
    finally show ?thesis using s by simp
  qed
qed

lemma concat_token_text:
  "concat (map token_text ts)
     = map (\<lambda>t. the (morseToChar t)) (filter (\<lambda>t. morseToChar t \<noteq> None) ts)"
  by (induction ts) (auto simp: token_text_def)

text \<open>
  Claim C1, as stated, at the input \<open>A  B\<close> (two spaces): the encoder writes two word
  markers, the decoder returns both spaces, and the text differs from the uppercased,
  whitespace-collapsed input \<open>A B\<close>.
\<close>

theorem roundtrip_keeps_repeated_spaces:
  "encode ''A  B'' = Inr ''.-      -...''
   \<and> decode ''.-      -...'' = Inr ''A  B''
   \<and> map toupper (collapse_internal_literal_whitespace ''A  B'') = ''A B''"
  by code_simp

text \<open>
  Claim C1, amended: for every string whose characters, after uppercasing, all lie in the
  alphabet of 40 characters (\<open>A\<close> to \<open>Z\<close>, \<open>0\<close> to \<open>9\<close>, full stop, comma, question
  mark, space), \<open>encode\<close> succeeds and decoding its result gives the input in upper case,
  with every space kept.
\<close>

theorem decode_encode_uppercases:
  assumes "\<forall>c\<in>set s. toupper c \<in> alphabet"
  shows "\<exists>m. encode s = Inr m \<and> decode m = Inr (map toupper s)"
  using assms roundtrip_aux[OF assms] by (simp add: encode_ok decode_eq decoded_def)

text \<open>Claim C1, amended, at the input \<open>a  b\<close>.\<close>

theorem decode_encode_uppercases_witness:
  "toupper ` set ''a  b'' \<subseteq> alphabet
   \<and> (\<exists>m. encode ''a  b'' = Inr m \<and> decode m = Inr ''A  B'')"
proof -
  have h: "\<forall>c\<in>set ''a  b''. toupper c \<in> alphabet"
    unfolding alphabet_eq by code_simp
  have u: "map toupper ''a  b'' = ''A  B''" by code_simp
  from decode_encode_uppercases[OF h] u
  have "\<exists>m. encode ''a  b'' = Inr m \<and> decode m = Inr ''A  B''" by simp
  moreover from h have "toupper ` set ''a  b'' \<subseteq> alphabet" by blast
  ultimately show ?thesis by blast
qed

text \<open>
  Claim C3 speaks of a 39-entry alphabet. The table has 40 keys: 26 letters, 10 digits,
  full stop, comma, question mark and space.
\<close>

theorem alphabet_has_forty_entries: "card alphabet = 40 \<and> card alphabet \<noteq> 39"
  by (simp add: card_alphabet)

text \<open>
  Claim C3, amended: \<open>encode\<close> fails, with the message naming an uppercased character
  of the input that is outside the 40-entry alphabet, exactly when the input contains such
  a character; otherwise it returns a Morse string. The result is either the error or the
  complete string, never a part of it.
\<close>

theorem encode_fails_exactly_outside_alphabet:
  "((\<exists>c\<in>set s. toupper c \<notin> alphabet) \<longrightarrow>
      (\<exists>c\<in>set s. toupper c \<notin> alphabet \<and> encode s = Inl (UnsupportedCharacter (toupper c))))
   \<and> ((\<forall>c\<in>set s. toupper c \<in> alphabet) \<longrightarrow> (\<exists>m. encode s = Inr m))
   \<and> alphabet = set ''ABCDEFGHIJKLMNOPQRSTUVWXYZ0123456789.,? ''
   \<and> card alphabet = 40"
  using encode_loop_bad[of s "([], False)"] encode_ok[of s] alphabet_eq card_alphabet
  unfolding encode_def by blast

text \<open>Claim C3, amended, at the inputs \<open>Hi!\<close> and \<open>sos\<close>.\<close>

theorem encode_fails_exactly_outside_alphabet_witness:
  "(\<exists>c\<in>set ''Hi!''. toupper c \<notin> alphabet)
   \<and> encode ''Hi!'' = Inl (UnsupportedCharacter (CHR ''!''))
   \<and> toupper ` set ''sos'' \<subseteq> alphabet
   \<and> encode ''sos'' = Inr ''... --- ...''"
proof -
  have bad: "\<exists>c\<in>set ''Hi!''. toupper c \<notin> alphabet"
    unfolding alphabet_eq by code_simp
  have good: "\<forall>c\<in>set ''sos''. toupper c \<in> alphabet"
    unfolding alphabet_eq by code_simp
  have e1: "encode ''Hi!'' = Inl (UnsupportedCharacter (CHR ''!''))" by code_simp
  have e2: "encode ''sos'' = Inr ''... --- ...''" by code_simp
  from good have sub: "toupper ` set ''sos'' \<subseteq> alphabet" by blast
  from encode_fails_exactly_outside_alphabet[of "''Hi!''"]
       encode_fails_exactly_outside_alphabet[of "''sos''"] bad sub e1 e2
  show ?thesis by blast
qed

text \<open>
  Claim C4: \<open>decode\<close> returns a text for every input, neither \<open>substr\<close> nor \<open>at\<close> ever
  throws; each word segment contributes the characters of its tokens that have an entry
  in the pattern table, in order, and nothing for the other tokens. In particular, tokens
  separated by single spaces decode to the characters of the valid ones.
\<close>

theorem decode_never_fails_and_drops_junk:
  "(\<exists>t. decode m = Inr t)
   \<and> decode m = Inr (join '' ''
         (map (\<lambda>w. map (\<lambda>t. the (morseToChar t)) (filter (\<lambda>t. morseToChar t \<noteq> None) (tokens w)))
              (word_segments m)))
   \<and> ((\<forall>t\<in>set ts. tokenlike t) \<longrightarrow>
        decode (join '' '' ts)
          = Inr (map (\<lambda>t. the (morseToChar t)) (filter (\<lambda>t. morseToChar t \<noteq> None) ts)))"
proof -
  have "decode_word = (\<lambda>w. map (\<lambda>t. the (morseToChar t)) (filter (\<lambda>t. morseToChar t \<noteq> None) (tokens w)))"
    by (simp add: fun_eq_iff decode_word_def concat_token_text)
  then have a: "decode m = Inr (join '' ''
         (map (\<lambda>w. map (\<lambda>t. the (morseToChar t)) (filter (\<lambda>t. morseToChar t \<noteq> None) (tokens w)))
              (word_segments m)))"
    using decode_eq[of m] by simp
  have "decode (join '' '' ts)
          = Inr (map (\<lambda>t. the (morseToChar t)) (filter (\<lambda>t. morseToChar t \<noteq> None) ts))"
    if "\<forall>t\<in>set ts. tokenlike t"
    using that decoded_word[OF that] concat_token_text[of ts] decode_eq[of "join '' '' ts"]
    by (simp add: decoded_def)
  with a show ?thesis by blast
qed

text \<open>Claim C4 at the input \<open>.- xyz -...\<close>: the junk token \<open>xyz\<close> is dropped.\<close>

theorem decode_never_fails_and_drops_junk_witness:
  "list_all tokenlike [''.-'', ''xyz'', ''-...'']
   \<and> decode ''.- xyz -...'' = Inr ''AB''"
proof -
  have h: "\<forall>t\<in>set [''.-'', ''xyz'', ''-...'']. tokenlike t"
    by (simp add: tokenlike_def isspace_def)
  have v: "map (\<lambda>t. the (morseToChar t)) (filter (\<lambda>t. morseToChar t \<noteq> None) [''.-'', ''xyz'', ''-...''])
          = ''AB''"
    by code_simp
  have j: "join '' '' [''.-'', ''xyz'', ''-...''] = ''.- xyz -...''" by simp
  from decode_never_fails_and_drops_junk[of "[]" "[''.-'', ''xyz'', ''-...'']"] h
  have "decode (join '' '' [''.-'', ''xyz'', ''-...''])
          = Inr (map (\<lambda>t. the (morseToChar t)) (filter (\<lambda>t. morseToChar t \<noteq> None) [''.-'', ''xyz'', ''-...'']))"
    by blast
  then have "decode ''.- xyz -...'' = Inr ''AB''" by (simp only: j v)
  moreover from h have "list_all tokenlike [''.-'', ''xyz'', ''-...'']" by simp
  ultimately show ?thesis by blast
qed

text \<open>
  Claim C8, as stated, at two inputs: an empty first segment gives a leading space, a last
  segment holding only an unrecognized token gives a trailing space.
\<close>

theorem decode_edge_spaces: "decode ''   .-'' = Inr '' A'' \<and> decode ''.-   xyz'' = Inr ''A ''"
  by code_simp

text \<open>
  Claim C8, amended: the input is its word segments with the three-space marker between
  them, and \<open>decode\<close> returns the texts of those segments, in order, with exactly one
  space between consecutive segments and nothing before the first or after the last. A
  segment that is empty or holds only unrecognized tokens has the empty text, so the
  result begins or ends with a separator space when that segment is the first or the last.
\<close>

theorem decode_joins_segments:
  "decode m = Inr (join '' '' (map decode_word (word_segments m)))
   \<and> join ''   '' (word_segments m) = m
   \<and> word_segments m \<noteq> []"
  by (simp add: decode_eq join_word_segments)

text \<open>
  Claim C10: in a Morse string returned by \<open>encode\<close>, a maximal run of \<open>n\<close> spaces (not
  preceded and not followed by a space) has length 1 or a multiple of 3, so never 2, and
  \<open>spaceCount\<close> is never 2 when \<open>generateSamples\<close> scans that string.
\<close>

theorem encode_space_runs:
  assumes "encode s = Inr m"
    and "m = pre @ replicate n (CHR '' '') @ post"
    and "0 < n"
    and "pre = [] \<or> last pre \<noteq> CHR '' ''"
    and "post = [] \<or> hd post \<noteq> CHR '' ''"
  shows "(n = 1 \<or> 3 dvd n) \<and> n \<noteq> 2 \<and> 2 \<notin> set (space_counts m)"
proof -
  from encode_Inr_alphabet[OF assms(1)] have ok: "\<forall>c\<in>set s. toupper c \<in> alphabet" .
  with assms(1) have m: "m = morse_of False s" by (simp add: encode_ok)
  from morse_of_counts[OF ok] have all: "\<forall>k\<in>set (space_counts m). k = 1 \<or> 3 dvd k"
    unfolding m by blast
  from maximal_run_counted[OF assms(4,3,5)] have "n \<in> set (space_counts m)"
    unfolding assms(2) .
  with all have "n = 1 \<or> 3 dvd n" by blast
  moreover have "2 \<notin> set (space_counts m)" using all by auto
  ultimately show ?thesis by auto
qed

text \<open>Claim C10 at the input \<open>a b\<close>, whose Morse string has one run of three spaces.\<close>

theorem encode_space_runs_witness:
  "encode ''a b'' = Inr ''.-   -...''
   \<and> ''.-   -...'' = ''.-'' @ replicate 3 (CHR '' '') @ ''-...''
   \<and> (3 = (1::nat) \<or> (3::nat) dvd 3) \<and> (3::nat) \<noteq> 2 \<and> 2 \<notin> set (space_counts ''.-   -...'')"
proof -
  have h1: "encode ''a b'' = Inr ''.-   -...''" by code_simp
  have h2: "''.-   -...'' = ''.-'' @ replicate 3 (CHR '' '') @ ''-...''"
    by (simp add: numeral_3_eq_3)
  have h3: "0 < (3::nat)" by simp
  have h4: "''.-'' = [] \<or> last ''.-'' \<noteq> CHR '' ''" by simp
  have h5: "''-...'' = [] \<or> hd ''-...'' \<noteq> CHR '' ''" by simp
  from encode_space_runs[OF h1 h2 h3 h4 h5] h1 h2 show ?thesis by blast
qed

section \<open>The tone detector\<close>

lemma debounce_threshold_44100: "debounce_threshold 44100 = 44"
  unfolding debounce_threshold_def of_nat_numeral by code_simp

lemma detect_loop_append:
  "detect_loop sr i (xs @ ys) st = detect_loop sr (i + length xs) ys (detect_loop sr i xs st)"
  by (induction xs arbitrary: i st) auto

lemma detect_step_blip:
  assumes "active x" "\<not> in_tone st" "debounce_counter st + 1 < debounce_threshold sr"
  shows "detect_step sr i x st = st\<lparr>debounce_counter := debounce_counter st + 1\<rparr>"
  using assms by (simp add: detect_step_def)

lemma detect_loop_blip:
  assumes "\<forall>x\<in>set xs. active x" "\<not> in_tone st"
    and "debounce_counter st + int (length xs) < debounce_threshold sr"
  shows "detect_loop sr i xs st = st\<lparr>debounce_counter := debounce_counter st + int (length xs)\<rparr>"
  using assms
proof (induction xs arbitrary: i st)
  case Nil
  then show ?case by simp
next
  case (Cons x xs)
  from Cons.prems have step: "detect_step sr i x st = st\<lparr>debounce_counter := debounce_counter st + 1\<rparr>"
    by (intro detect_step_blip) auto
  show ?case
    using Cons.prems Cons.IH[of "st\<lparr>debounce_counter := debounce_counter st + 1\<rparr>" "Suc i"]
    by (simp add: step add.assoc)
qed

lemma detect_step_quiet_in_silence:
  assumes "\<not> active x" "\<not> in_tone st"
  shows "detect_step sr i x st = st\<lparr>debounce_counter := 0\<rparr>"
  using assms by (simp add: detect_step_def)

lemma quiet_silence_counter:
  assumes "\<not> active x" "\<not> in_tone (detect_step sr i x st)"
  shows "debounce_counter (detect_step sr i x st) = 0"
  using assms by (auto simp: detect_step_def split: if_splits)

lemma silence_after_quiet:
  assumes "pre = [] \<or> \<not> active (last pre)" "\<not> in_tone (detect_loop sr 0 pre initial)"
  shows "debounce_counter (detect_loop sr 0 pre initial) = 0"
proof (cases pre rule: rev_cases)
  case Nil
  then show ?thesis by (simp add: initial_def)
next
  case (snoc ys y)
  with assms have "\<not> active y" by simp
  moreover have "detect_loop sr 0 pre initial
      = detect_step sr (length ys) y (detect_loop sr 0 ys initial)"
    using snoc by (simp add: detect_loop_append)
  ultimately show ?thesis using assms(2) quiet_silence_counter by metis
qed

end
